theory Spec2Isabelle
  imports Main "HOL-Library.Word"
begin

unbundle bit_operations_syntax

section \<open>The platform as the program sees it\<close>

text \<open>
  The program in \<^verbatim>\<open>roms/source/hello world.c\<close> is
  \<^verbatim>\<open>
  void main() {
    printf("Press 'start'...\n\n");
    waitpad(J_START);
    printf("You win!\n");
  }
  \<close>
  It talks to the platform through two GBDK primitives, \<^verbatim>\<open>printf\<close> and
  \<^verbatim>\<open>waitpad\<close>, and one key mask, \<^verbatim>\<open>J_START\<close>. Their code and the
  header \<^verbatim>\<open>gb/gb.h\<close> are not part of the repository, so the primitives are modelled
  below from the specification and the mask is a parameter of \<open>main\<close>.

  The machine state holds what is observable: the chronological log of what the program
  did to the platform (text written, joypad values read), and the joypad values that the
  next polls will deliver. A finite list of values is the part of the input-signal
  sequence that has occurred so far; when it is used up the program is still inside the
  wait.
\<close>

type_synonym UINT8 = "8 word"

datatype event = Printed string | Polled UINT8

record gameboy =
  events :: "event list"
  readings :: "UINT8 list"

text \<open>A call either has not returned when the input ends, or it has returned.\<close>

datatype outcome = Blocked gameboy | Returned gameboy

text \<open>
  Modelled from the spec: the output surface is an ASCII text console that takes writes
  in order (section 6). The format strings of the program contain no conversion, so
  \<open>printf\<close> writes its argument as it is.
\<close>

definition printf :: "string \<Rightarrow> gameboy \<Rightarrow> gameboy" where
  "printf text s = s\<lparr>events := events s @ [Printed text]\<rparr>"

text \<open>
  Modelled from the spec: the input surface is read by polling (sections 5 and 9). One
  poll takes the next joypad value; \<open>None\<close> says that no further value has occurred.
\<close>

definition joypad :: "gameboy \<Rightarrow> (UINT8 \<times> gameboy) option" where
  "joypad s = (case readings s of
       [] \<Rightarrow> None
     | r # rs \<Rightarrow> Some (r, s\<lparr>events := events s @ [Polled r], readings := rs\<rparr>))"

text \<open>
  Modelled from the spec: the wait is a spin-poll loop that checks a predicate at each
  iteration and has no timeout (section 4.1, step 2, and section 9). The predicate is
  GBDK's: some key of the mask is down in the value read. The value that \<^verbatim>\<open>waitpad\<close>
  returns is dropped by \<open>main\<close> and is not modelled.
\<close>

function waitpad :: "UINT8 \<Rightarrow> gameboy \<Rightarrow> outcome" where
  "waitpad keys s = (case joypad s of
       None \<Rightarrow> Blocked s
     | Some (r, s') \<Rightarrow> if r AND keys \<noteq> 0 then Returned s' else waitpad keys s')"
  by pat_completeness auto
termination
  by (relation "measure (\<lambda>(keys, s). length (readings s))")
     (auto simp: joypad_def split: list.splits)

declare waitpad.simps [simp del]

section \<open>The program\<close>

text \<open>
  \<open>main\<close> follows the three statements of the source. \<open>J_START\<close> is the mask of the
  designated control, whatever value the header gives it.
\<close>

definition main :: "UINT8 \<Rightarrow> gameboy \<Rightarrow> outcome" where
  "main J_START s0 =
     (let s1 = printf ''Press 'start'...\<newline>\<newline>'' s0 in
      case waitpad J_START s1 of
        Blocked s \<Rightarrow> Blocked s
      | Returned s2 \<Rightarrow> Returned (printf ''You win!\<newline>'' s2))"

text \<open>The state at program start: nothing done yet, the given joypad values to come.\<close>

definition power_on :: "UINT8 list \<Rightarrow> gameboy" where
  "power_on rs = \<lparr>events = [], readings = rs\<rparr>"

definition run :: "UINT8 \<Rightarrow> UINT8 list \<Rightarrow> outcome" where
  "run J_START rs = main J_START (power_on rs)"

section \<open>Vocabulary of the specification\<close>

abbreviation first_message :: string where
  "first_message \<equiv> ''Press 'start'...\<newline>\<newline>''"

abbreviation second_message :: string where
  "second_message \<equiv> ''You win!\<newline>''"

text \<open>A joypad value is a press of the designated control when it has a key of the mask.\<close>

definition start_press :: "UINT8 \<Rightarrow> UINT8 \<Rightarrow> bool" where
  "start_press J_START r = (r AND J_START \<noteq> 0)"

fun state_of :: "outcome \<Rightarrow> gameboy" where
  "state_of (Blocked s) = s"
| "state_of (Returned s) = s"

text \<open>The text on the output surface: the writes of the log, in order.\<close>

fun screen :: "event list \<Rightarrow> string" where
  "screen [] = []"
| "screen (Printed text # es) = text @ screen es"
| "screen (Polled r # es) = screen es"

text \<open>The joypad values the program has read, in order.\<close>

fun observed :: "event list \<Rightarrow> UINT8 list" where
  "observed [] = []"
| "observed (Printed text # es) = observed es"
| "observed (Polled r # es) = r # observed es"

text \<open>
  The execution state of section 3: \<open>awaiting_input\<close> while \<open>main\<close> has not returned,
  \<open>completed\<close> once it has.
\<close>

datatype execution_state = awaiting_input | completed

fun execution_state_of :: "outcome \<Rightarrow> execution_state" where
  "execution_state_of (Blocked s) = awaiting_input"
| "execution_state_of (Returned s) = completed"

section \<open>The program step by step\<close>

text \<open>
  The same program as a transition relation between configurations: the source line
  about to run (line 15 is the closing brace, reached when \<open>main\<close> returns) and the
  machine state. Line 13 is the polling loop of \<open>waitpad\<close>, one poll per step.
\<close>

datatype line = L12 | L13 | L14 | L15

inductive step :: "UINT8 \<Rightarrow> line \<times> gameboy \<Rightarrow> line \<times> gameboy \<Rightarrow> bool"
  for J_START :: UINT8 where
  print_first: "step J_START (L12, s) (L13, printf ''Press 'start'...\<newline>\<newline>'' s)"
| poll_again: "joypad s = Some (r, s') \<Longrightarrow> r AND J_START = 0 \<Longrightarrow>
     step J_START (L13, s) (L13, s')"
| poll_done: "joypad s = Some (r, s') \<Longrightarrow> r AND J_START \<noteq> 0 \<Longrightarrow>
     step J_START (L13, s) (L14, s')"
| print_second: "step J_START (L14, s) (L15, printf ''You win!\<newline>'' s)"

code_pred step .

text \<open>A configuration with no next step: \<open>main\<close> has returned, or the input has ended
  inside the wait.\<close>

fun halted :: "line \<times> gameboy \<Rightarrow> bool" where
  "halted (L15, s) = True"
| "halted (L13, s) = (readings s = [])"
| "halted (l, s) = False"

text \<open>The configuration in which an outcome of \<open>main\<close> leaves the program.\<close>

definition final_of :: "outcome \<Rightarrow> line \<times> gameboy" where
  "final_of out = (case out of Blocked s \<Rightarrow> (L13, s) | Returned s \<Rightarrow> (L15, s))"

text \<open>
  What the log looks like at each line: nothing before the first write; the first
  message and then only polls without a press during the wait; a press as the last poll
  once the wait is over; the second message last after line 14.
\<close>

fun shape :: "UINT8 \<Rightarrow> line \<times> gameboy \<Rightarrow> bool" where
  "shape J_START (L12, s) = (events s = [])"
| "shape J_START (L13, s) =
     (let xs = observed (events s) in
      events s = Printed first_message # map Polled xs \<and>
      (\<forall>x\<in>set xs. \<not> start_press J_START x))"
| "shape J_START (L14, s) =
     (let xs = observed (events s) in
      events s = Printed first_message # map Polled xs \<and>
      xs \<noteq> [] \<and> (\<forall>x\<in>set (butlast xs). \<not> start_press J_START x) \<and>
      start_press J_START (last xs))"
| "shape J_START (L15, s) =
     (let xs = observed (events s) in
      events s = Printed first_message # map Polled xs @ [Printed second_message] \<and>
      xs \<noteq> [] \<and> (\<forall>x\<in>set (butlast xs). \<not> start_press J_START x) \<and>
      start_press J_START (last xs))"

section \<open>The wait and the whole run in closed form\<close>

lemma waitpad_Nil: "readings s = [] \<Longrightarrow> waitpad keys s = Blocked s"
  by (simp add: waitpad.simps [of keys s] joypad_def)

lemma waitpad_Cons:
  "readings s = r # rs \<Longrightarrow>
   waitpad keys s =
     (if start_press keys r
      then Returned (s\<lparr>events := events s @ [Polled r], readings := rs\<rparr>)
      else waitpad keys (s\<lparr>events := events s @ [Polled r], readings := rs\<rparr>))"
  by (simp add: waitpad.simps [of keys s] joypad_def start_press_def)

lemma waitpad_idle:
  "readings s = rs \<Longrightarrow> \<forall>r\<in>set rs. \<not> start_press keys r \<Longrightarrow>
   waitpad keys s = Blocked (s\<lparr>events := events s @ map Polled rs, readings := []\<rparr>)"
proof (induction rs arbitrary: s)
  case Nil
  then show ?case by (simp add: waitpad_Nil)
next
  case (Cons r rs)
  let ?s' = "s\<lparr>events := events s @ [Polled r], readings := rs\<rparr>"
  from Cons.prems have "waitpad keys s = waitpad keys ?s'"
    by (simp add: waitpad_Cons)
  also from Cons.prems have "\<dots> = Blocked (?s'\<lparr>events := events ?s' @ map Polled rs, readings := []\<rparr>)"
    by (intro Cons.IH) simp_all
  finally show ?case by simp
qed

lemma waitpad_press:
  "readings s = xs @ r # ys \<Longrightarrow> \<forall>x\<in>set xs. \<not> start_press keys x \<Longrightarrow> start_press keys r \<Longrightarrow>
   waitpad keys s = Returned (s\<lparr>events := events s @ map Polled xs @ [Polled r], readings := ys\<rparr>)"
proof (induction xs arbitrary: s)
  case Nil
  then show ?case by (simp add: waitpad_Cons)
next
  case (Cons x xs)
  let ?s' = "s\<lparr>events := events s @ [Polled x], readings := xs @ r # ys\<rparr>"
  from Cons.prems have "waitpad keys s = waitpad keys ?s'"
    by (simp add: waitpad_Cons)
  also from Cons.prems have "\<dots> = Returned (?s'\<lparr>events := events ?s' @ map Polled xs @ [Polled r], readings := ys\<rparr>)"
    by (intro Cons.IH) simp_all
  finally show ?case by simp
qed

lemma run_idle:
  "\<forall>r\<in>set rs. \<not> start_press J_START r \<Longrightarrow>
   run J_START rs = Blocked \<lparr>events = Printed first_message # map Polled rs, readings = []\<rparr>"
  by (simp add: run_def main_def power_on_def printf_def waitpad_idle)

lemma run_press:
  "\<forall>x\<in>set xs. \<not> start_press J_START x \<Longrightarrow> start_press J_START r \<Longrightarrow>
   run J_START (xs @ r # ys) =
     Returned \<lparr>events = Printed first_message # map Polled xs @ [Polled r, Printed second_message],
               readings = ys\<rparr>"
  by (simp add: run_def main_def power_on_def printf_def waitpad_press [where xs = xs and r = r and ys = ys])

lemma split_at_first_press:
  "\<exists>r\<in>set rs. start_press J_START r \<Longrightarrow>
   \<exists>xs r ys. rs = xs @ r # ys \<and> (\<forall>x\<in>set xs. \<not> start_press J_START x) \<and> start_press J_START r"
  by (metis split_list_first_prop)

lemma screen_append: "screen (es @ es') = screen es @ screen es'"
  by (induction es rule: screen.induct) simp_all

lemma screen_Polled: "screen (map Polled rs) = []"
  by (induction rs) simp_all

lemma observed_append: "observed (es @ es') = observed es @ observed es'"
  by (induction es rule: observed.induct) simp_all

lemma observed_Polled: "observed (map Polled rs) = rs"
  by (induction rs) simp_all

section \<open>Executions of the step relation\<close>

lemma step_functional: "step J_START c c1 \<Longrightarrow> step J_START c c2 \<Longrightarrow> c1 = c2"
  by (induction rule: step.induct) (auto elim: step.cases)

lemma halted_no_step: "halted c \<Longrightarrow> \<not> step J_START c c'"
  by (auto elim!: step.cases simp: joypad_def)

lemma not_halted_step: "\<not> halted c \<Longrightarrow> \<exists>c'. step J_START c c'"
proof (cases c)
  case (Pair l s)
  assume nh: "\<not> halted c"
  show ?thesis
  proof (cases l)
    case L12 with Pair show ?thesis by (auto intro: step.intros)
  next
    case L13
    with Pair nh obtain r rs where rs: "readings s = r # rs" by (cases "readings s") auto
    then have j: "joypad s = Some (r, s\<lparr>events := events s @ [Polled r], readings := rs\<rparr>)"
      by (simp add: joypad_def)
    show ?thesis
    proof (cases "r AND J_START = 0")
      case True with j Pair L13 show ?thesis by (blast intro: step.poll_again)
    next
      case False with j Pair L13 show ?thesis by (blast intro: step.poll_done)
    qed
  next
    case L14 with Pair show ?thesis by (auto intro: step.intros)
  next
    case L15 with Pair nh show ?thesis by simp
  qed
qed

lemma steps_confluent:
  assumes "(step J_START)\<^sup>*\<^sup>* c c1" and "(step J_START)\<^sup>*\<^sup>* c c2"
  shows "(step J_START)\<^sup>*\<^sup>* c1 c2 \<or> (step J_START)\<^sup>*\<^sup>* c2 c1"
  using assms
proof (induction rule: converse_rtranclp_induct)
  case base
  then show ?case by simp
next
  case (step c c')
  from step.prems show ?case
  proof (cases rule: converse_rtranclpE)
    case base
    with step.hyps show ?thesis by (auto intro: converse_rtranclp_into_rtranclp)
  next
    case (step d)
    with \<open>step J_START c c'\<close> have "d = c'" by (auto dest: step_functional)
    with step step.IH show ?thesis by simp
  qed
qed

lemma waitpad_steps:
  "(step J_START)\<^sup>*\<^sup>* (L13, s)
     (case waitpad J_START s of Blocked s' \<Rightarrow> (L13, s') | Returned s' \<Rightarrow> (L14, s'))"
proof (induction J_START s rule: waitpad.induct)
  case (1 keys s)
  show ?case
  proof (cases "joypad s")
    case None
    then show ?thesis by (simp add: waitpad.simps [of keys s])
  next
    case (Some p)
    obtain r s' where p: "p = (r, s')" by (cases p)
    show ?thesis
    proof (cases "r AND keys = 0")
      case True
      with Some p have st: "step keys (L13, s) (L13, s')" by (auto intro: step.poll_again)
      from True Some p have w: "waitpad keys s = waitpad keys s'"
        by (simp add: waitpad.simps [of keys s])
      from "1.IH" [OF Some p [symmetric]] True st show ?thesis
        unfolding w by (auto intro: converse_rtranclp_into_rtranclp)
    next
      case False
      with Some p have st: "step keys (L13, s) (L14, s')" by (auto intro: step.poll_done)
      from False Some p have w: "waitpad keys s = Returned s'"
        by (simp add: waitpad.simps [of keys s])
      from st show ?thesis unfolding w by auto
    qed
  qed
qed

lemma waitpad_Blocked_readings: "waitpad keys s = Blocked s' \<Longrightarrow> readings s' = []"
proof (induction keys s rule: waitpad.induct)
  case (1 keys s)
  then show ?case
    by (subst (asm) (2) waitpad.simps) (auto simp: joypad_def split: option.splits list.splits if_splits)
qed

lemma main_steps: "(step J_START)\<^sup>*\<^sup>* (L12, s0) (final_of (main J_START s0))"
proof -
  let ?s1 = "printf first_message s0"
  have a: "(step J_START)\<^sup>*\<^sup>* (L12, s0) (L13, ?s1)"
    by (auto intro: step.print_first)
  have b: "(step J_START)\<^sup>*\<^sup>* (L13, ?s1)
     (case waitpad J_START ?s1 of Blocked s' \<Rightarrow> (L13, s') | Returned s' \<Rightarrow> (L14, s'))"
    by (rule waitpad_steps)
  show ?thesis
  proof (cases "waitpad J_START ?s1")
    case (Blocked s')
    with a b show ?thesis by (simp add: main_def final_of_def)
  next
    case (Returned s')
    have "step J_START (L14, s') (L15, printf second_message s')" by (rule step.print_second)
    then have "(step J_START)\<^sup>*\<^sup>* (L14, s') (L15, printf second_message s')" by blast
    moreover from a b Returned have "(step J_START)\<^sup>*\<^sup>* (L12, s0) (L14, s')" by simp
    ultimately have "(step J_START)\<^sup>*\<^sup>* (L12, s0) (L15, printf second_message s')"
      by (rule rtranclp_trans [rotated])
    with Returned show ?thesis by (simp add: main_def final_of_def)
  qed
qed

lemma main_halted: "halted (final_of (main J_START s0))"
  by (auto simp: main_def final_of_def Let_def dest: waitpad_Blocked_readings split: outcome.splits)

lemma joypad_SomeD:
  "joypad s = Some (r, s') \<Longrightarrow>
   \<exists>rs. readings s = r # rs \<and> s' = s\<lparr>events := events s @ [Polled r], readings := rs\<rparr>"
  by (auto simp: joypad_def split: list.splits)

lemma shape_step: "step J_START c c' \<Longrightarrow> shape J_START c \<Longrightarrow> shape J_START c'"
proof (induction rule: step.induct)
  case (print_first s)
  then show ?case by (simp add: printf_def)
next
  case (poll_again s r s')
  then show ?case
    by (auto dest!: joypad_SomeD simp: Let_def observed_append observed_Polled start_press_def)
next
  case (poll_done s r s')
  then show ?case
    by (auto dest!: joypad_SomeD simp: Let_def observed_append observed_Polled start_press_def)
next
  case (print_second s)
  then show ?case by (simp add: printf_def Let_def observed_append observed_Polled)
qed

lemma input_step:
  "step J_START c c' \<Longrightarrow>
   observed (events (snd c')) @ readings (snd c') = observed (events (snd c)) @ readings (snd c)"
  by (induction rule: step.induct)
     (auto dest!: joypad_SomeD simp: printf_def observed_append)

lemma shape_steps:
  "(step J_START)\<^sup>*\<^sup>* c c' \<Longrightarrow> shape J_START c \<Longrightarrow> shape J_START c'"
  by (induction rule: rtranclp_induct) (auto intro: shape_step)

lemma input_steps:
  "(step J_START)\<^sup>*\<^sup>* c c' \<Longrightarrow>
   observed (events (snd c')) @ readings (snd c') = observed (events (snd c)) @ readings (snd c)"
  by (induction rule: rtranclp_induct) (auto dest: input_step)

lemma reachable_shape:
  "(step J_START)\<^sup>*\<^sup>* (L12, power_on rs) (l, s) \<Longrightarrow>
   shape J_START (l, s) \<and> observed (events s) @ readings s = rs"
  using shape_steps [of J_START "(L12, power_on rs)" "(l, s)"]
        input_steps [of J_START "(L12, power_on rs)" "(l, s)"]
  by (simp add: power_on_def)

lemma halted_steps: "(step J_START)\<^sup>*\<^sup>* c c' \<Longrightarrow> halted c \<Longrightarrow> c' = c"
  by (induction rule: converse_rtranclp_induct) (auto dest: halted_no_step)

lemma run_Returned_iff:
  "execution_state_of (run J_START rs) = completed \<longleftrightarrow> (\<exists>r\<in>set rs. start_press J_START r)"
proof (cases "\<exists>r\<in>set rs. start_press J_START r")
  case True
  then obtain xs r ys where "rs = xs @ r # ys" "\<forall>x\<in>set xs. \<not> start_press J_START x"
      "start_press J_START r"
    using split_at_first_press by blast
  with True show ?thesis by (simp add: run_press)
next
  case False
  then show ?thesis by (simp add: run_idle)
qed

lemma idle_zero: "\<not> start_press J_START 0"
  by (simp add: start_press_def)

section \<open>The claims\<close>

text \<open>
  Claim C1. On invocation the program performs exactly this observable sequence: it
  writes the line \<^verbatim>\<open>Press 'start'...\<close> and a blank line, it stays in the wait until a
  press of the designated control is read, it writes the line \<^verbatim>\<open>You win!\<close>, and it
  returns. Here \<open>xs\<close> are the joypad values before the first press \<open>r\<close>, and \<open>ys\<close> is
  whatever follows: while only \<open>xs\<close> has occurred the log is the first write followed by
  the polls of \<open>xs\<close> and \<open>main\<close> has not returned; with \<open>r\<close> the log is completed by the
  poll of \<open>r\<close> and the second write, \<open>main\<close> has returned, and \<open>ys\<close> is left unread.
  Writes are lines (section 6 of the specification), so each text carries its newline.
\<close>

theorem main_observable_sequence:
  assumes "\<forall>x\<in>set xs. \<not> start_press J_START x" and "start_press J_START r"
  shows "run J_START xs =
           Blocked \<lparr>events = Printed ''Press 'start'...\<newline>\<newline>'' # map Polled xs,
                    readings = []\<rparr> \<and>
         run J_START (xs @ r # ys) =
           Returned \<lparr>events = Printed ''Press 'start'...\<newline>\<newline>'' # map Polled xs @
                                [Polled r, Printed ''You win!\<newline>''],
                     readings = ys\<rparr>"
  using assms by (simp add: run_idle run_press)

theorem main_observable_sequence_witness:
  "\<not> start_press 0x80 0 \<and> \<not> start_press 0x80 0x01 \<and> start_press 0x80 0x80 \<and>
   run 0x80 [0, 0x01] =
     Blocked \<lparr>events = [Printed ''Press 'start'...\<newline>\<newline>'', Polled 0, Polled 0x01],
              readings = []\<rparr> \<and>
   run 0x80 [0, 0x01, 0x80, 0x80, 0] =
     Returned \<lparr>events = [Printed ''Press 'start'...\<newline>\<newline>'', Polled 0, Polled 0x01,
                          Polled 0x80, Printed ''You win!\<newline>''],
               readings = [0x80, 0]\<rparr>"
  using main_observable_sequence [of "[0, 0x01]" "0x80" "0x80" "[0x80, 0]"]
  by (simp add: start_press_def)

text \<open>
  Claim C2. For every input-signal sequence \<open>rs\<close>, the second message is written if and
  only if a press of the designated control has been read (equivalently: occurs in
  \<open>rs\<close>), and then it is written exactly once, however many presses follow: the log holds
  one write of it and the output surface shows it once, after the first message.
\<close>

theorem second_message_single_trigger:
  "(Printed ''You win!\<newline>'' \<in> set (events (state_of (run J_START rs)))
      \<longleftrightarrow> (\<exists>r\<in>set (observed (events (state_of (run J_START rs)))). start_press J_START r)) \<and>
   (Printed ''You win!\<newline>'' \<in> set (events (state_of (run J_START rs)))
      \<longleftrightarrow> (\<exists>r\<in>set rs. start_press J_START r)) \<and>
   count_list (events (state_of (run J_START rs))) (Printed ''You win!\<newline>'') =
     (if \<exists>r\<in>set rs. start_press J_START r then 1 else 0) \<and>
   screen (events (state_of (run J_START rs))) =
     (if \<exists>r\<in>set rs. start_press J_START r
      then ''Press 'start'...\<newline>\<newline>You win!\<newline>'' else ''Press 'start'...\<newline>\<newline>'')"
proof (cases "\<exists>r\<in>set rs. start_press J_START r")
  case True
  then obtain xs r ys where rs: "rs = xs @ r # ys"
    and idle: "\<forall>x\<in>set xs. \<not> start_press J_START x" and press: "start_press J_START r"
    using split_at_first_press by blast
  have count: "count_list (map Polled xs) (Printed second_message) = 0"
    by (induction xs) simp_all
  have nin: "Printed second_message \<notin> set (map Polled xs)" by auto
  from idle press have "run J_START rs =
      Returned \<lparr>events = Printed first_message # map Polled xs @ [Polled r, Printed second_message],
                readings = ys\<rparr>"
    unfolding rs by (rule run_press)
  with True press count show ?thesis
    by (simp add: screen_append screen_Polled observed_append observed_Polled)
next
  case False
  have count: "count_list (map Polled rs) (Printed second_message) = 0"
    by (induction rs) simp_all
  from False have "run J_START rs =
      Blocked \<lparr>events = Printed first_message # map Polled rs, readings = []\<rparr>"
    by (simp add: run_idle)
  with False count show ?thesis
    by (auto simp: screen_Polled observed_Polled)
qed

theorem second_message_single_trigger_witness:
  "(Printed ''You win!\<newline>'' \<in> set (events (state_of (run 0x80 [0, 0x80, 0, 0x80, 0x80])))
      \<longleftrightarrow> (\<exists>r\<in>set (observed (events (state_of (run 0x80 [0, 0x80, 0, 0x80, 0x80])))). start_press 0x80 r)) \<and>
   (Printed ''You win!\<newline>'' \<in> set (events (state_of (run 0x80 [0, 0x80, 0, 0x80, 0x80])))
      \<longleftrightarrow> (\<exists>r\<in>set [0, 0x80, 0, 0x80, 0x80]. start_press 0x80 r)) \<and>
   count_list (events (state_of (run 0x80 [0, 0x80, 0, 0x80, 0x80]))) (Printed ''You win!\<newline>'') = 1 \<and>
   screen (events (state_of (run 0x80 [0, 0x80, 0, 0x80, 0x80]))) =
     ''Press 'start'...\<newline>\<newline>You win!\<newline>''"
proof -
  have r: "run 0x80 [0, 0x80, 0, 0x80, 0x80] =
      Returned \<lparr>events = [Printed first_message, Polled 0, Polled 0x80, Printed second_message],
                readings = [0, 0x80, 0x80]\<rparr>"
    by code_simp
  show ?thesis
    using second_message_single_trigger [of "0x80" "[0, 0x80, 0, 0x80, 0x80]"]
    by (simp add: r start_press_def)
qed

text \<open>
  Claim C3. For an input-signal sequence \<open>joy\<close> that never has a press of the designated
  control, however many of its values have occurred (\<open>n\<close>), every configuration that the
  step relation reaches is at line 12 or inside the wait at line 13, the second message
  is not in its log, and \<open>main\<close> has not returned.
\<close>

theorem wait_blocks_without_start:
  assumes "\<forall>k. \<not> start_press J_START (joy k)"
    and "(step J_START)\<^sup>*\<^sup>* (L12, power_on (map joy [0..<n])) (l, s)"
  shows "(l = L12 \<or> l = L13) \<and>
         Printed ''You win!\<newline>'' \<notin> set (events s) \<and>
         execution_state_of (run J_START (map joy [0..<n])) = awaiting_input"
proof -
  let ?rs = "map joy [0..<n]"
  from assms(1) have idle: "\<forall>r\<in>set ?rs. \<not> start_press J_START r" by simp
  from assms(2) have sh: "shape J_START (l, s)"
    and inp: "observed (events s) @ readings s = ?rs"
    using reachable_shape by blast+
  from inp idle have obs: "\<forall>r\<in>set (observed (events s)). \<not> start_press J_START r"
    by (metis Un_iff set_append)
  have line: "l = L12 \<or> l = L13"
  proof (cases l)
    case L14
    with sh have "observed (events s) \<noteq> []" "start_press J_START (last (observed (events s)))"
      by (simp_all add: Let_def)
    with obs show ?thesis using last_in_set by blast
  next
    case L15
    with sh have "observed (events s) \<noteq> []" "start_press J_START (last (observed (events s)))"
      by (simp_all add: Let_def)
    with obs show ?thesis using last_in_set by blast
  qed simp_all
  from line sh have "events s = [] \<or> events s = Printed first_message # map Polled (observed (events s))"
    by (auto simp: Let_def)
  then have "Printed second_message \<notin> set (events s)"
  proof
    assume "events s = []"
    then show ?thesis by simp
  next
    assume e: "events s = Printed first_message # map Polled (observed (events s))"
    have "Printed second_message \<notin> set (Printed first_message # map Polled (observed (events s)))"
      by auto
    with e show ?thesis by simp
  qed
  moreover from idle have "run J_START ?rs =
      Blocked \<lparr>events = Printed first_message # map Polled ?rs, readings = []\<rparr>"
    by (rule run_idle)
  ultimately show ?thesis using line by simp
qed

theorem wait_blocks_without_start_witness:
  "(\<forall>k::nat. \<not> start_press 0x80 ((\<lambda>k. 0) k)) \<and>
   (step 0x80)\<^sup>*\<^sup>* (L12, power_on (map (\<lambda>k. 0) [0..<2]))
      (L13, \<lparr>events = [Printed ''Press 'start'...\<newline>\<newline>'', Polled 0, Polled 0],
             readings = []\<rparr>) \<and>
   (L13 = L12 \<or> L13 = L13) \<and>
   Printed ''You win!\<newline>'' \<notin> set [Printed ''Press 'start'...\<newline>\<newline>'', Polled 0, Polled 0] \<and>
   execution_state_of (run 0x80 (map (\<lambda>k. 0) [0..<2])) = awaiting_input"
proof -
  have idle: "\<forall>k::nat. \<not> start_press 0x80 ((\<lambda>k. 0) k)"
    by (simp add: start_press_def)
  have m: "map (\<lambda>k. 0::UINT8) [0..<2] = [0, 0]"
    by (simp add: upt_rec)
  have f: "final_of (main 0x80 (power_on [0, 0])) =
      (L13, \<lparr>events = [Printed first_message, Polled 0, Polled 0], readings = []\<rparr>)"
    by code_simp
  have reach: "(step 0x80)\<^sup>*\<^sup>* (L12, power_on (map (\<lambda>k. 0) [0..<2]))
      (L13, \<lparr>events = [Printed first_message, Polled 0, Polled 0], readings = []\<rparr>)"
    using main_steps [of "0x80" "power_on [0, 0]"] by (simp add: m f)
  show ?thesis
    using wait_blocks_without_start [OF idle reach] idle reach by simp
qed

text \<open>
  Claim C4. Immediately after program start and before any input signal has been
  observed, the output surface holds exactly \<^verbatim>\<open>Press 'start'...\<close> followed by a blank
  line, and nothing else: with no joypad value occurred, the log is the first write alone;
  and on any input, every configuration reached past line 12 in which no joypad value has
  been read shows exactly that text.
\<close>

theorem initial_output:
  "run J_START [] = Blocked \<lparr>events = [Printed ''Press 'start'...\<newline>\<newline>''], readings = []\<rparr> \<and>
   screen (events (state_of (run J_START []))) = ''Press 'start'...\<newline>\<newline>'' \<and>
   (\<forall>rs l s. (step J_START)\<^sup>*\<^sup>* (L12, power_on rs) (l, s) \<longrightarrow> l \<noteq> L12 \<longrightarrow>
      observed (events s) = [] \<longrightarrow> screen (events s) = ''Press 'start'...\<newline>\<newline>'')"
proof -
  have "screen (events s) = first_message"
    if "(step J_START)\<^sup>*\<^sup>* (L12, power_on rs) (l, s)" "l \<noteq> L12" "observed (events s) = []"
    for rs l s
  proof -
    from that(1) have "shape J_START (l, s)" using reachable_shape by blast
    with that(2,3) show ?thesis by (cases l) (simp_all add: Let_def)
  qed
  then show ?thesis by (simp add: run_idle)
qed

theorem initial_output_witness:
  "(step 0x80)\<^sup>*\<^sup>* (L12, power_on [0x80])
      (L13, \<lparr>events = [Printed ''Press 'start'...\<newline>\<newline>''], readings = [0x80]\<rparr>) \<and>
   L13 \<noteq> L12 \<and>
   observed [Printed ''Press 'start'...\<newline>\<newline>''] = [] \<and>
   screen [Printed ''Press 'start'...\<newline>\<newline>''] = ''Press 'start'...\<newline>\<newline>'' \<and>
   screen (events (state_of (run 0x80 []))) = ''Press 'start'...\<newline>\<newline>''"
proof -
  have "step 0x80 (L12, power_on [0x80]) (L13, printf first_message (power_on [0x80]))"
    by (rule step.print_first)
  then have reach: "(step 0x80)\<^sup>*\<^sup>* (L12, power_on [0x80])
      (L13, \<lparr>events = [Printed first_message], readings = [0x80]\<rparr>)"
    by (simp add: printf_def power_on_def r_into_rtranclp)
  show ?thesis
    using initial_output [of "0x80"] reach by simp
qed

text \<open>
  Claim C5. In every execution the first message is written in full before the wait
  begins and the second only after the wait has completed, with no interleaving: before
  line 12 has run the log is empty; during and right after the wait it is the first
  write followed by polls only; during the wait no poll has read a press; once the wait
  is over the last poll has read a press; and after line 14 the second write is the last
  entry, behind every poll.
\<close>

theorem writes_ordered_around_wait:
  assumes "(step J_START)\<^sup>*\<^sup>* (L12, power_on rs) (l, s)"
  shows "(l = L12 \<longrightarrow> events s = []) \<and>
         (l = L13 \<or> l = L14 \<longrightarrow>
            events s = Printed ''Press 'start'...\<newline>\<newline>'' # map Polled (observed (events s))) \<and>
         (l = L13 \<longrightarrow> (\<forall>x\<in>set (observed (events s)). \<not> start_press J_START x)) \<and>
         (l = L14 \<or> l = L15 \<longrightarrow>
            observed (events s) \<noteq> [] \<and> start_press J_START (last (observed (events s)))) \<and>
         (l = L15 \<longrightarrow>
            events s = Printed ''Press 'start'...\<newline>\<newline>'' # map Polled (observed (events s)) @
                         [Printed ''You win!\<newline>''])"
proof -
  from assms have "shape J_START (l, s)" using reachable_shape by blast
  then show ?thesis by (cases l) (simp_all add: Let_def)
qed

theorem writes_ordered_around_wait_witness:
  "(step 0x80)\<^sup>*\<^sup>* (L12, power_on [0, 0x80, 0x80])
      (L15, \<lparr>events = [Printed ''Press 'start'...\<newline>\<newline>'', Polled 0, Polled 0x80,
                        Printed ''You win!\<newline>''],
             readings = [0x80]\<rparr>) \<and>
   observed [Printed ''Press 'start'...\<newline>\<newline>'', Polled 0, Polled 0x80,
             Printed ''You win!\<newline>''] = [0, 0x80] \<and>
   start_press 0x80 (last [0, 0x80])"
proof -
  have f: "final_of (main 0x80 (power_on [0, 0x80, 0x80])) =
      (L15, \<lparr>events = [Printed first_message, Polled 0, Polled 0x80, Printed second_message],
             readings = [0x80]\<rparr>)"
    by code_simp
  have reach: "(step 0x80)\<^sup>*\<^sup>* (L12, power_on [0, 0x80, 0x80])
      (L15, \<lparr>events = [Printed first_message, Polled 0, Polled 0x80, Printed second_message],
             readings = [0x80]\<rparr>)"
    using main_steps [of "0x80" "power_on [0, 0x80, 0x80]"] by (simp add: f)
  show ?thesis
    using writes_ordered_around_wait [OF reach] reach by simp
qed

text \<open>
  Claim C6. On the input sequence no press, no press, start press (\<open>a\<close>, \<open>b\<close>, \<open>r\<close>) the
  complete output is the line \<^verbatim>\<open>Press 'start'...\<close>, a blank line, and the line
  \<^verbatim>\<open>You win!\<close>, and nothing more; \<open>main\<close> has returned.
\<close>

theorem end_to_end_start:
  assumes "\<not> start_press J_START a" and "\<not> start_press J_START b" and "start_press J_START r"
  shows "run J_START [a, b, r] =
           Returned \<lparr>events = [Printed ''Press 'start'...\<newline>\<newline>'', Polled a, Polled b, Polled r,
                                Printed ''You win!\<newline>''],
                     readings = []\<rparr> \<and>
         screen (events (state_of (run J_START [a, b, r]))) =
           ''Press 'start'...\<newline>\<newline>You win!\<newline>''"
  using assms run_press [of "[a, b]" J_START r "[]"] by simp

theorem end_to_end_start_witness:
  "\<not> start_press 0x80 0 \<and> start_press 0x80 0x80 \<and>
   run 0x80 [0, 0, 0x80] =
     Returned \<lparr>events = [Printed ''Press 'start'...\<newline>\<newline>'', Polled 0, Polled 0, Polled 0x80,
                          Printed ''You win!\<newline>''],
               readings = []\<rparr> \<and>
   screen (events (state_of (run 0x80 [0, 0, 0x80]))) = ''Press 'start'...\<newline>\<newline>You win!\<newline>''"
  using end_to_end_start [of "0x80" 0 0 "0x80"] by (simp add: start_press_def)

text \<open>
  Claim C7. On an empty input sequence, and on one in which nothing is ever pressed
  (any number \<open>n\<close> of joypad values 0), the total output is the characters
  \<^verbatim>\<open>Press 'start'...\<close> followed by two newlines, \<open>main\<close> has not returned, and no
  reachable configuration shows any other output (none before line 12 has run).
\<close>

theorem end_to_end_no_input:
  "run J_START [] = Blocked \<lparr>events = [Printed ''Press 'start'...\<newline>\<newline>''], readings = []\<rparr> \<and>
   (\<forall>n. run J_START (replicate n 0) =
          Blocked \<lparr>events = Printed ''Press 'start'...\<newline>\<newline>'' # replicate n (Polled 0),
                   readings = []\<rparr> \<and>
        screen (events (state_of (run J_START (replicate n 0)))) =
          ''Press 'start'...'' @ [CHR 0x0A, CHR 0x0A]) \<and>
   (\<forall>n l s. (step J_START)\<^sup>*\<^sup>* (L12, power_on (replicate n 0)) (l, s) \<longrightarrow>
      screen (events s) = (if l = L12 then [] else ''Press 'start'...'' @ [CHR 0x0A, CHR 0x0A]))"
proof -
  have idle: "\<forall>r\<in>set (replicate n 0). \<not> start_press J_START r" for n
    by (simp add: idle_zero)
  have a: "run J_START (replicate n 0) =
      Blocked \<lparr>events = Printed first_message # replicate n (Polled 0), readings = []\<rparr>" for n
    using run_idle [OF idle [of n]] by simp
  have scr: "screen (replicate n (Polled 0)) = []" for n
    by (induction n) simp_all
  have c: "screen (events s) = (if l = L12 then [] else first_message)"
    if reach: "(step J_START)\<^sup>*\<^sup>* (L12, power_on (replicate n 0)) (l, s)" for n l s
  proof -
    from reach have sh: "shape J_START (l, s)"
      and inp: "observed (events s) @ readings s = replicate n 0"
      using reachable_shape by blast+
    from inp have "set (observed (events s)) \<subseteq> set (replicate n (0::UINT8))"
      by (metis set_append Un_upper1)
    then have obs: "\<forall>r\<in>set (observed (events s)). r = 0" by auto
    show ?thesis
    proof (cases l)
      case L12 with sh show ?thesis by simp
    next
      case L13
      with sh have "events s = Printed first_message # map Polled (observed (events s))"
        by (simp add: Let_def)
      then have "screen (events s) = screen (Printed first_message # map Polled (observed (events s)))"
        by simp
      with L13 show ?thesis by (simp add: screen_Polled)
    next
      case L14
      with sh have "observed (events s) \<noteq> []" "start_press J_START (last (observed (events s)))"
        by (simp_all add: Let_def)
      with obs show ?thesis using last_in_set idle_zero by metis
    next
      case L15
      with sh have "observed (events s) \<noteq> []" "start_press J_START (last (observed (events s)))"
        by (simp_all add: Let_def)
      with obs show ?thesis using last_in_set idle_zero by metis
    qed
  qed
  from a [of 0] have "run J_START [] = Blocked \<lparr>events = [Printed first_message], readings = []\<rparr>"
    by simp
  moreover have "\<forall>n. run J_START (replicate n 0) =
          Blocked \<lparr>events = Printed first_message # replicate n (Polled 0), readings = []\<rparr> \<and>
        screen (events (state_of (run J_START (replicate n 0)))) = first_message"
    by (simp add: a scr)
  moreover have "\<forall>n l s. (step J_START)\<^sup>*\<^sup>* (L12, power_on (replicate n 0)) (l, s) \<longrightarrow>
      screen (events s) = (if l = L12 then [] else first_message)"
    using c by blast
  ultimately show ?thesis by (simp add: scr)
qed

theorem end_to_end_no_input_witness:
  "(step 0x80)\<^sup>*\<^sup>* (L12, power_on (replicate 2 0))
      (L13, \<lparr>events = [Printed ''Press 'start'...\<newline>\<newline>'', Polled 0, Polled 0], readings = []\<rparr>) \<and>
   screen [Printed ''Press 'start'...\<newline>\<newline>'', Polled 0, Polled 0] =
     ''Press 'start'...'' @ [CHR 0x0A, CHR 0x0A] \<and>
   run 0x80 (replicate 2 0) =
     Blocked \<lparr>events = [Printed ''Press 'start'...\<newline>\<newline>'', Polled 0, Polled 0], readings = []\<rparr>"
proof -
  have r2: "replicate 2 (0::UINT8) = [0, 0]" by (simp add: numeral_2_eq_2)
  have f: "final_of (main 0x80 (power_on [0, 0])) =
      (L13, \<lparr>events = [Printed first_message, Polled 0, Polled 0], readings = []\<rparr>)"
    by code_simp
  have reach: "(step 0x80)\<^sup>*\<^sup>* (L12, power_on (replicate 2 0))
      (L13, \<lparr>events = [Printed first_message, Polled 0, Polled 0], readings = []\<rparr>)"
    using main_steps [of "0x80" "power_on [0, 0]"] by (simp add: r2 f)
  have p2: "replicate 2 (Polled 0) = [Polled 0, Polled 0]" by (simp add: numeral_2_eq_2)
  from end_to_end_no_input [of "0x80"]
  have "run 0x80 (replicate 2 0) =
      Blocked \<lparr>events = Printed first_message # replicate 2 (Polled 0), readings = []\<rparr>"
    by blast
  moreover from end_to_end_no_input [of "0x80"] reach
  have "screen (events \<lparr>events = [Printed first_message, Polled 0, Polled 0], readings = []\<rparr>) =
      (if L13 = L12 then [] else ''Press 'start'...'' @ [CHR 0x0A, CHR 0x0A])"
    by blast
  ultimately show ?thesis using reach by (simp add: p2)
qed

text \<open>
  Claim C8. The execution state has the two values \<open>awaiting_input\<close> and \<open>completed\<close>.
  It starts as \<open>awaiting_input\<close>; while it is \<open>awaiting_input\<close> the next joypad value \<open>r\<close>
  makes it \<open>completed\<close> exactly when \<open>r\<close> is a press of the designated control; once it is
  \<open>completed\<close> it stays so and nothing more is logged, whatever input \<open>ys\<close> follows; and
  the step relation has no step from line 15, where \<open>main\<close> has returned.
\<close>

theorem execution_state_transitions:
  "execution_state_of (run J_START []) = awaiting_input \<and>
   (execution_state_of (run J_START rs) = awaiting_input \<longrightarrow>
      execution_state_of (run J_START (rs @ [r])) =
        (if start_press J_START r then completed else awaiting_input)) \<and>
   (execution_state_of (run J_START rs) = completed \<longrightarrow>
      execution_state_of (run J_START (rs @ ys)) = completed \<and>
      events (state_of (run J_START (rs @ ys))) = events (state_of (run J_START rs))) \<and>
   (\<forall>s c. \<not> step J_START (L15, s) c)"
proof -
  have a: "execution_state_of (run J_START []) = awaiting_input"
    by (simp add: run_idle)
  have b: "execution_state_of (run J_START (rs @ [r])) =
        (if start_press J_START r then completed else awaiting_input)"
    if "execution_state_of (run J_START rs) = awaiting_input"
  proof -
    from that have idle: "\<forall>x\<in>set rs. \<not> start_press J_START x"
      using run_Returned_iff [of J_START rs] by auto
    show ?thesis
    proof (cases "start_press J_START r")
      case True
      with idle show ?thesis by (simp add: run_press)
    next
      case False
      with idle have "\<forall>x\<in>set (rs @ [r]). \<not> start_press J_START x" by simp
      then have "run J_START (rs @ [r]) =
          Blocked \<lparr>events = Printed first_message # map Polled (rs @ [r]), readings = []\<rparr>"
        by (rule run_idle)
      with False show ?thesis by simp
    qed
  qed
  have c: "execution_state_of (run J_START (rs @ ys)) = completed \<and>
      events (state_of (run J_START (rs @ ys))) = events (state_of (run J_START rs))"
    if "execution_state_of (run J_START rs) = completed"
  proof -
    from that have "\<exists>r\<in>set rs. start_press J_START r"
      by (simp add: run_Returned_iff)
    then obtain xs x zs where rs: "rs = xs @ x # zs"
      and idle: "\<forall>x\<in>set xs. \<not> start_press J_START x" and press: "start_press J_START x"
      using split_at_first_press by blast
    from idle press have "run J_START (xs @ x # zs) =
        Returned \<lparr>events = Printed first_message # map Polled xs @ [Polled x, Printed second_message],
                  readings = zs\<rparr>"
      by (rule run_press)
    moreover from idle press have "run J_START (xs @ x # (zs @ ys)) =
        Returned \<lparr>events = Printed first_message # map Polled xs @ [Polled x, Printed second_message],
                  readings = zs @ ys\<rparr>"
      by (rule run_press)
    ultimately show ?thesis by (simp add: rs)
  qed
  have d: "\<forall>s c. \<not> step J_START (L15, s) c"
    by (auto elim: step.cases)
  from a b c d show ?thesis by blast
qed

theorem execution_state_transitions_witness:
  "execution_state_of (run 0x80 [0]) = awaiting_input \<and>
   start_press 0x80 0x80 \<and>
   execution_state_of (run 0x80 ([0] @ [0x80])) = completed \<and>
   execution_state_of (run 0x80 (([0] @ [0x80]) @ [0, 0x80])) = completed \<and>
   events (state_of (run 0x80 (([0] @ [0x80]) @ [0, 0x80]))) =
     events (state_of (run 0x80 ([0] @ [0x80])))"
proof -
  have w: "execution_state_of (run 0x80 [0]) = awaiting_input" by code_simp
  have p: "start_press 0x80 0x80" by (simp add: start_press_def)
  from execution_state_transitions [of "0x80" "[0]" "0x80"] w p
  have c: "execution_state_of (run 0x80 ([0] @ [0x80])) = completed" by simp
  from execution_state_transitions [of "0x80" "[0] @ [0x80]" _ "[0, 0x80]"] c
  have "execution_state_of (run 0x80 (([0] @ [0x80]) @ [0, 0x80])) = completed \<and>
    events (state_of (run 0x80 (([0] @ [0x80]) @ [0, 0x80]))) =
      events (state_of (run 0x80 ([0] @ [0x80])))"
    by blast
  with w p c show ?thesis by blast
qed

text \<open>
  Claim C9. The program is deterministic in its input: two executions of the step
  relation on the same input-signal sequence that both run until no step is left end in
  the same configuration, so they have the same log (content and order of the output),
  and it is the one \<open>run\<close> computes.
\<close>

theorem runs_deterministic:
  assumes "(step J_START)\<^sup>*\<^sup>* (L12, power_on rs) c1" and "halted c1"
    and "(step J_START)\<^sup>*\<^sup>* (L12, power_on rs) c2" and "halted c2"
  shows "c1 = c2 \<and> events (snd c1) = events (snd c2) \<and>
         screen (events (snd c1)) = screen (events (snd c2)) \<and>
         c1 = final_of (run J_START rs)"
proof -
  have unique: "c = final_of (run J_START rs)"
    if "(step J_START)\<^sup>*\<^sup>* (L12, power_on rs) c" "halted c" for c
  proof -
    let ?f = "final_of (run J_START rs)"
    have "(step J_START)\<^sup>*\<^sup>* (L12, power_on rs) ?f" and hf: "halted ?f"
      unfolding run_def by (rule main_steps, rule main_halted)
    with that(1) have "(step J_START)\<^sup>*\<^sup>* c ?f \<or> (step J_START)\<^sup>*\<^sup>* ?f c"
      using steps_confluent by blast
    then show ?thesis
    proof
      assume "(step J_START)\<^sup>*\<^sup>* c ?f"
      with that(2) show ?thesis using halted_steps by blast
    next
      assume "(step J_START)\<^sup>*\<^sup>* ?f c"
      with hf show ?thesis using halted_steps by blast
    qed
  qed
  from unique [OF assms(1,2)] unique [OF assms(3,4)] show ?thesis by simp
qed

theorem runs_deterministic_witness:
  "(step 0x80)\<^sup>*\<^sup>* (L12, power_on [0, 0x80])
      (L15, \<lparr>events = [Printed ''Press 'start'...\<newline>\<newline>'', Polled 0, Polled 0x80,
                        Printed ''You win!\<newline>''],
             readings = []\<rparr>) \<and>
   halted (L15, \<lparr>events = [Printed ''Press 'start'...\<newline>\<newline>'', Polled 0, Polled 0x80,
                           Printed ''You win!\<newline>''],
                readings = []\<rparr>) \<and>
   (L15, \<lparr>events = [Printed ''Press 'start'...\<newline>\<newline>'', Polled 0, Polled 0x80,
                    Printed ''You win!\<newline>''],
         readings = []\<rparr>) = final_of (run 0x80 [0, 0x80])"
proof -
  let ?c = "(L15, \<lparr>events = [Printed first_message, Polled 0, Polled 0x80, Printed second_message],
                   readings = []\<rparr>)"
  have st1: "step 0x80 (L12, power_on [0, 0x80])
      (L13, \<lparr>events = [Printed first_message], readings = [0, 0x80]\<rparr>)"
    using step.print_first [of "0x80" "power_on [0, 0x80]"] by (simp add: printf_def power_on_def)
  have st2: "step 0x80 (L13, \<lparr>events = [Printed first_message], readings = [0, 0x80]\<rparr>)
      (L13, \<lparr>events = [Printed first_message, Polled 0], readings = [0x80]\<rparr>)"
    by (rule step.poll_again [where r = 0]) (simp_all add: joypad_def)
  have st3: "step 0x80 (L13, \<lparr>events = [Printed first_message, Polled 0], readings = [0x80]\<rparr>)
      (L14, \<lparr>events = [Printed first_message, Polled 0, Polled 0x80], readings = []\<rparr>)"
    by (rule step.poll_done [where r = "0x80"]) (simp_all add: joypad_def)
  have st4: "step 0x80 (L14, \<lparr>events = [Printed first_message, Polled 0, Polled 0x80], readings = []\<rparr>) ?c"
    using step.print_second [of "0x80" "\<lparr>events = [Printed first_message, Polled 0, Polled 0x80], readings = []\<rparr>"]
    by (simp add: printf_def)
  have reach: "(step 0x80)\<^sup>*\<^sup>* (L12, power_on [0, 0x80]) ?c"
    using st1 st2 st3 st4 by (meson rtranclp.rtrancl_into_rtrancl rtranclp.rtrancl_refl)
  have h: "halted ?c" by simp
  show ?thesis
    using runs_deterministic [OF reach h reach h] reach h by simp
qed

text \<open>
  Claim C10. The second message is written with a trailing newline: the step of line 14,
  taken once the wait is over, appends exactly the characters \<^verbatim>\<open>You win!\<close> and one
  newline to the output; and whenever \<open>main\<close> has returned, that write is the last entry
  of the log and the output ends in a newline.
\<close>

theorem second_message_trailing_newline:
  "(step J_START (L14, s) c \<longrightarrow>
      fst c = L15 \<and> events (snd c) = events s @ [Printed (''You win!'' @ [CHR 0x0A])] \<and>
      screen (events (snd c)) = screen (events s) @ ''You win!'' @ [CHR 0x0A]) \<and>
   (execution_state_of (run J_START rs) = completed \<longrightarrow>
      last (events (state_of (run J_START rs))) = Printed (''You win!'' @ [CHR 0x0A]) \<and>
      screen (events (state_of (run J_START rs))) =
        ''Press 'start'...'' @ [CHR 0x0A, CHR 0x0A] @ ''You win!'' @ [CHR 0x0A] \<and>
      last (screen (events (state_of (run J_START rs)))) = CHR 0x0A)"
proof -
  have a: "fst c = L15 \<and> events (snd c) = events s @ [Printed (''You win!'' @ [CHR 0x0A])] \<and>
      screen (events (snd c)) = screen (events s) @ ''You win!'' @ [CHR 0x0A]"
    if "step J_START (L14, s) c"
    using that by (auto elim: step.cases simp: printf_def screen_append)
  have b: "last (events (state_of (run J_START rs))) = Printed (''You win!'' @ [CHR 0x0A]) \<and>
      screen (events (state_of (run J_START rs))) =
        ''Press 'start'...'' @ [CHR 0x0A, CHR 0x0A] @ ''You win!'' @ [CHR 0x0A] \<and>
      last (screen (events (state_of (run J_START rs)))) = CHR 0x0A"
    if "execution_state_of (run J_START rs) = completed"
  proof -
    from that have "\<exists>r\<in>set rs. start_press J_START r"
      by (simp add: run_Returned_iff)
    then obtain xs x zs where rs: "rs = xs @ x # zs"
      and idle: "\<forall>x\<in>set xs. \<not> start_press J_START x" and press: "start_press J_START x"
      using split_at_first_press by blast
    from idle press have "run J_START rs =
        Returned \<lparr>events = Printed first_message # map Polled xs @ [Polled x, Printed second_message],
                  readings = zs\<rparr>"
      unfolding rs by (rule run_press)
    then show ?thesis by (simp add: screen_append screen_Polled)
  qed
  from a b show ?thesis by blast
qed

theorem second_message_trailing_newline_witness:
  "step 0x80 (L14, \<lparr>events = [Printed ''Press 'start'...\<newline>\<newline>'', Polled 0x80], readings = []\<rparr>)
     (L15, \<lparr>events = [Printed ''Press 'start'...\<newline>\<newline>'', Polled 0x80,
                       Printed (''You win!'' @ [CHR 0x0A])],
            readings = []\<rparr>) \<and>
   execution_state_of (run 0x80 [0x80]) = completed \<and>
   last (events (state_of (run 0x80 [0x80]))) = Printed (''You win!'' @ [CHR 0x0A]) \<and>
   screen (events (state_of (run 0x80 [0x80]))) =
     ''Press 'start'...'' @ [CHR 0x0A, CHR 0x0A] @ ''You win!'' @ [CHR 0x0A] \<and>
   last (screen (events (state_of (run 0x80 [0x80])))) = CHR 0x0A"
proof -
  have st: "step 0x80 (L14, \<lparr>events = [Printed first_message, Polled 0x80], readings = []\<rparr>)
     (L15, \<lparr>events = [Printed first_message, Polled 0x80, Printed (''You win!'' @ [CHR 0x0A])],
            readings = []\<rparr>)"
    using step.print_second [of "0x80" "\<lparr>events = [Printed first_message, Polled 0x80], readings = []\<rparr>"]
    by (simp add: printf_def)
  have c: "execution_state_of (run 0x80 [0x80]) = completed" by code_simp
  from second_message_trailing_newline [of "0x80" _ _ "[0x80]"] c
  have "last (events (state_of (run 0x80 [0x80]))) = Printed (''You win!'' @ [CHR 0x0A]) \<and>
    screen (events (state_of (run 0x80 [0x80]))) =
      ''Press 'start'...'' @ [CHR 0x0A, CHR 0x0A] @ ''You win!'' @ [CHR 0x0A] \<and>
    last (screen (events (state_of (run 0x80 [0x80])))) = CHR 0x0A"
    by blast
  with st c show ?thesis by blast
qed

end
